theory Spec2Isabelle
  imports Main "HOL-Library.Multiset"
begin

section \<open>The server pools of \<open>app/mcp\<close>\<close>

text \<open>
  The development embeds \<open>GenericMCPServerPool\<close>
  (\<open>src/app/mcp/generic_mcp_server_pool.py\<close>), the pool that \<open>main.py\<close> constructs,
  and the methods \<open>initialize\<close> and \<open>shutdown\<close> of \<open>MCPServerStdioPool\<close>
  (\<open>src/app/mcp/mcp_server_stdio_pool.py\<close>), which order the same statements
  differently.

  Every method is a function from the pool before the call to an outcome and the pool
  after the call.  One call is one step: the interleaving of several tasks at the
  \<open>await\<close> points is not part of the model.  A call that would wait on the empty
  queue has the outcome \<open>Suspended\<close>.  The factory, the \<open>cleanup()\<close> of the servers
  and the logger are parameters of the methods that use them.
\<close>

subsection \<open>Data model\<close>

text \<open>
  An \<open>MCPServer\<close> object is opaque to the pool; only its identity matters (Python's
  \<open>in\<close> and \<open>list.remove\<close> compare the objects), so a server is its identity.
\<close>

type_synonym server = nat

text \<open>
  Exceptions.  \<open>ValueError\<close> is raised by the constructor, \<open>QueueFull\<close> and
  \<open>QueueEmpty\<close> by \<open>asyncio.Queue\<close>; \<open>IndexError\<close>, \<open>KeyError\<close> and again
  \<open>ValueError\<close> are what \<open>str.format\<close> raises on a text with braces;
  \<open>Failure text\<close> stands for any other instance of \<open>Exception\<close> that a factory or a
  \<open>cleanup()\<close> raises, with the text that \<open>str\<close> gives for it.  What
  \<open>except Exception\<close> does not catch (the cancellation of a task) is outside the model.
  The source defines no class \<open>PoolInitializationError\<close>: the constructor of that name
  is here only so that a wrapped exception can be told from a raw one.
\<close>

datatype exn =
    ValueError
  | IndexError
  | KeyError
  | QueueFull
  | QueueEmpty
  | Failure string
  | PoolInitializationError exn

text \<open>
  The two capabilities the pool consumes.  \<open>server_factory\<close> is called without
  arguments, so its result can depend only on how often it has been called: a factory is
  the function from the number of earlier calls to the outcome of the next one.
  \<open>cleanup()\<close> of a server returns (\<open>None\<close>) or raises (\<open>Some e\<close>).
\<close>

type_synonym factory = "nat \<Rightarrow> exn + server"
type_synonym cleanup = "server \<Rightarrow> exn option"

text \<open>
  Logging.  Every \<open>except Exception as e\<close> handler of the two pools reports the
  exception with \<open>logger.error(f"... {e}", exc_info=True)\<close>.  The logger is loguru's,
  which passes the keyword arguments of a call to \<open>str.format\<close> on the message: unless
  the configuration drops the record before that, the call evaluates
  \<open>message.format(exc_info=True)\<close> on the text that already contains \<open>str(e)\<close>, and
  this raises (\<open>IndexError\<close>, \<open>KeyError\<close> or \<open>ValueError\<close>) when the text has a brace
  that is not a field named \<open>exc_info\<close>.  The calls without keyword arguments
  (\<open>logger.info(f"...")\<close> and the like) are not formatted and do not raise.

  A \<open>log_call\<close> is one of the calls with \<open>exc_info=True\<close>, with the values that its
  message interpolates apart from numbers and the name of the pool, which is fixed for
  a pool: the exception, and the server where the message has the server's name.  A
  logger gives the outcome of such a call: it returns (\<open>None\<close>) or raises (\<open>Some e\<close>).
\<close>

datatype log_call =
    InitializeFailed exn
  | PartialCleanupFailed server exn
  | FullQueueCleanupFailed exn
  | UnhealthyCleanupFailed exn
  | ShutdownCleanupFailed exn
  | StdioCreateFailed exn
  | StdioPartialCleanupFailed server exn
  | StdioShutdownCleanupFailed server exn

type_synonym logger = "log_call \<Rightarrow> exn option"

text \<open>
  The fields of the pool object, and two counters of the effects on the outside world:
  how many times the factory has been awaited, and the servers whose \<open>cleanup()\<close> has
  been awaited, in order.  \<open>available_servers\<close> is the content of the
  \<open>asyncio.Queue(maxsize=pool_size)\<close>, oldest first.  \<open>pool_name\<close> only appears in log
  messages and is left out.
\<close>

record pool =
  pool_size :: int
  available_servers :: "server list"
  all_servers :: "server list"
  factory_calls :: nat
  cleanup_calls :: "server list"

text \<open>What an awaited call does: it returns, raises, or never resumes on its own.\<close>

datatype 'a outcome = Returned 'a | Raised exn | Suspended

subsection \<open>The queue\<close>

text \<open>
  \<open>asyncio.Queue\<close>: a queue whose \<open>maxsize\<close> is not positive is unbounded;
  \<open>put_nowait\<close> raises \<open>QueueFull\<close> on a full queue and \<open>get_nowait\<close> raises
  \<open>QueueEmpty\<close> on an empty one.
\<close>

definition full :: "pool \<Rightarrow> bool" where
  "full p = (if pool_size p \<le> 0 then False
             else pool_size p \<le> int (length (available_servers p)))"

definition put_nowait :: "server \<Rightarrow> pool \<Rightarrow> exn + pool" where
  "put_nowait s p =
     (if full p then Inl QueueFull
      else Inr (p\<lparr>available_servers := available_servers p @ [s]\<rparr>))"

definition get_nowait :: "pool \<Rightarrow> exn + (server \<times> pool)" where
  "get_nowait p =
     (case available_servers p of
        [] \<Rightarrow> Inl QueueEmpty
      | s # rest \<Rightarrow> Inr (s, p\<lparr>available_servers := rest\<rparr>))"

text \<open>
  \<^verbatim>\<open>while not self.available_servers.empty():
    try: self.available_servers.get_nowait()
    except asyncio.QueueEmpty: break\<close>
\<close>

function drain_queue :: "pool \<Rightarrow> pool" where
  "drain_queue p =
     (if available_servers p = [] then p
      else (case get_nowait p of
              Inl e \<Rightarrow> p
            | Inr (s, p') \<Rightarrow> drain_queue p'))"
  by pat_completeness auto
termination
  by (relation "measure (\<lambda>p. length (available_servers p))")
     (auto simp: get_nowait_def split: list.splits)

declare drain_queue.simps [simp del]

subsection \<open>Disposal\<close>

text \<open>\<open>await srv.cleanup()\<close>: the call is recorded, its outcome is the server's.\<close>

definition cleanup_call :: "cleanup \<Rightarrow> server \<Rightarrow> pool \<Rightarrow> exn option \<times> pool" where
  "cleanup_call c s p = (c s, p\<lparr>cleanup_calls := cleanup_calls p @ [s]\<rparr>)"

text \<open>
  \<^verbatim>\<open>try: await srv.cleanup(); logger.info(f"...")
except Exception as e: logger.error(f"... {e}", exc_info=True)\<close>
  The result is the exception that leaves the statement, if any: a \<open>cleanup()\<close> that
  raises is caught, and what the \<open>logger.error\<close> of the handler raises is not.  \<open>site\<close>
  is the \<open>logger.error\<close> call of this handler.
\<close>

definition try_cleanup ::
  "logger \<Rightarrow> (server \<Rightarrow> exn \<Rightarrow> log_call) \<Rightarrow> cleanup \<Rightarrow> server \<Rightarrow> pool \<Rightarrow> exn option \<times> pool" where
  "try_cleanup lg site c s p =
     (case cleanup_call c s p of
        (None, p') \<Rightarrow> (None, p')
      | (Some e, p') \<Rightarrow> (lg (site s e), p'))"

text \<open>
  \<open>for srv in servers: try: await srv.cleanup() except Exception as e: ...\<close>; an
  exception that leaves the \<open>try\<close> statement leaves the loop.
\<close>

fun cleanup_each ::
  "logger \<Rightarrow> (server \<Rightarrow> exn \<Rightarrow> log_call) \<Rightarrow> cleanup \<Rightarrow> server list \<Rightarrow> pool \<Rightarrow> exn option \<times> pool" where
  "cleanup_each lg site c [] p = (None, p)"
| "cleanup_each lg site c (s # rest) p =
     (case try_cleanup lg site c s p of
        (None, p') \<Rightarrow> cleanup_each lg site c rest p'
      | (Some e, p') \<Rightarrow> (Some e, p'))"

subsection \<open>\<open>GenericMCPServerPool\<close>\<close>

text \<open>
  \<open>__init__\<close>.  The factory is a function by its type, so the \<open>TypeError\<close> of a
  factory that is not callable cannot arise.
\<close>

definition new_pool :: "int \<Rightarrow> exn + pool" where
  "new_pool n =
     (if n \<le> 0 then Inl ValueError
      else Inr \<lparr>pool_size = n, available_servers = [], all_servers = [],
                factory_calls = 0, cleanup_calls = []\<rparr>)"

text \<open>
  The body of the \<open>try\<close> in \<open>initialize\<close>: \<open>for i in range(self.pool_size)\<close>, with the
  number of iterations still to run, the list \<open>servers_created_this_attempt\<close> and the
  pool.  The result is the exception that left the loop, if any.
\<close>

fun create_servers ::
  "factory \<Rightarrow> nat \<Rightarrow> server list \<Rightarrow> pool \<Rightarrow> exn option \<times> server list \<times> pool" where
  "create_servers f 0 created p = (None, created, p)"
| "create_servers f (Suc n) created p =
     (let p1 = p\<lparr>factory_calls := Suc (factory_calls p)\<rparr> in
      case f (factory_calls p) of
        Inl e \<Rightarrow> (Some e, created, p1)
      | Inr mcp_server \<Rightarrow>
          (let created' = created @ [mcp_server] in
           case put_nowait mcp_server p1 of
             Inl e \<Rightarrow> (Some e, created', p1)
           | Inr p2 \<Rightarrow> create_servers f n created' p2))"

text \<open>
  \<open>initialize\<close>: on success \<open>all_servers\<close> is extended by the created servers.  The
  \<open>except Exception as e\<close> handler first calls
  \<open>logger.error(f"... Error during server factory call: {e}", exc_info=True)\<close>, then
  cleans up the created servers, empties the queue, clears \<open>all_servers\<close> and re-raises
  \<open>e\<close> with a bare \<open>raise\<close>.  An exception raised inside the handler, by one of the two
  \<open>logger.error\<close> calls, leaves \<open>initialize\<close> at that point.
\<close>

definition initialize :: "logger \<Rightarrow> factory \<Rightarrow> cleanup \<Rightarrow> pool \<Rightarrow> (exn + unit) \<times> pool" where
  "initialize lg f c p =
     (case create_servers f (nat (pool_size p)) [] p of
        (None, created, p') \<Rightarrow>
          (Inr (), p'\<lparr>all_servers := all_servers p' @ created\<rparr>)
      | (Some e, created, p') \<Rightarrow>
          (case lg (InitializeFailed e) of
             Some e' \<Rightarrow> (Inl e', p')
           | None \<Rightarrow>
               (case cleanup_each lg PartialCleanupFailed c created p' of
                  (Some e', p'') \<Rightarrow> (Inl e', p'')
                | (None, p'') \<Rightarrow> (Inl e, (drain_queue p'')\<lparr>all_servers := []\<rparr>))))"

text \<open>
  \<open>acquire\<close> is \<open>await self.available_servers.get()\<close>: the oldest server of the queue,
  or, on the empty queue, a wait that only a later \<open>put\<close> by another task ends.  No
  statement of \<open>acquire\<close> raises.
\<close>

definition acquire :: "pool \<Rightarrow> server outcome \<times> pool" where
  "acquire p =
     (case available_servers p of
        [] \<Rightarrow> (Suspended, p)
      | server # rest \<Rightarrow> (Returned server, p\<lparr>available_servers := rest\<rparr>))"

text \<open>
  \<^verbatim>\<open>finally:
    if server in self.all_servers: self.all_servers.remove(server)\<close>
  \<open>list.remove\<close> deletes the first occurrence.
\<close>

definition forget :: "server \<Rightarrow> pool \<Rightarrow> pool" where
  "forget s p =
     (if s \<in> set (all_servers p) then p\<lparr>all_servers := remove1 s (all_servers p)\<rparr>
      else p)"

text \<open>
  \<^verbatim>\<open>try: await server.cleanup()
except Exception as e: logger.error(f"... {e}", exc_info=True)
finally: if server in self.all_servers: self.all_servers.remove(server)\<close>
  The \<open>finally\<close> clause runs whether or not the handler raises; what the handler raises
  leaves the method.
\<close>

definition cleanup_and_forget ::
  "logger \<Rightarrow> (server \<Rightarrow> exn \<Rightarrow> log_call) \<Rightarrow> cleanup \<Rightarrow> server \<Rightarrow> pool \<Rightarrow> (exn + unit) \<times> pool" where
  "cleanup_and_forget lg site c s p =
     (case try_cleanup lg site c s p of
        (None, p') \<Rightarrow> (Inr (), forget s p')
      | (Some e, p') \<Rightarrow> (Inl e, forget s p'))"

text \<open>
  \<open>release\<close>.  The argument is \<open>None\<close> or a server.  The healthy branch catches
  \<open>asyncio.QueueFull\<close> only; any other exception of \<open>put_nowait\<close> would propagate.
\<close>

definition release ::
  "logger \<Rightarrow> cleanup \<Rightarrow> server option \<Rightarrow> bool \<Rightarrow> pool \<Rightarrow> (exn + unit) \<times> pool" where
  "release lg c server is_healthy p =
     (case server of
        None \<Rightarrow> (Inr (), p)
      | Some s \<Rightarrow>
          if is_healthy then
            (case put_nowait s p of
               Inr p' \<Rightarrow> (Inr (), p')
             | Inl QueueFull \<Rightarrow>
                 cleanup_and_forget lg (\<lambda>s e. FullQueueCleanupFailed e) c s p
             | Inl e \<Rightarrow> (Inl e, p))
          else cleanup_and_forget lg (\<lambda>s e. UnhealthyCleanupFailed e) c s p)"

text \<open>
  The first loop of \<open>shutdown\<close>, with the list \<open>servers_to_shutdown\<close>:
  \<^verbatim>\<open>while not self.available_servers.empty():
    try:
        server_in_queue = self.available_servers.get_nowait()
        if server_in_queue not in servers_to_shutdown:
            servers_to_shutdown.append(server_in_queue)
    except asyncio.QueueEmpty: break\<close>
\<close>

function drain_to :: "server list \<Rightarrow> pool \<Rightarrow> server list \<times> pool" where
  "drain_to servers_to_shutdown p =
     (if available_servers p = [] then (servers_to_shutdown, p)
      else (case get_nowait p of
              Inl e \<Rightarrow> (servers_to_shutdown, p)
            | Inr (server_in_queue, p') \<Rightarrow>
                drain_to (if server_in_queue \<notin> set servers_to_shutdown
                          then servers_to_shutdown @ [server_in_queue]
                          else servers_to_shutdown) p'))"
  by pat_completeness auto
termination
  by (relation "measure (\<lambda>(l, p). length (available_servers p))")
     (auto simp: get_nowait_def split: list.splits)

declare drain_to.simps [simp del]

text \<open>
  \<open>shutdown\<close>: copy and clear \<open>all_servers\<close>, drain the queue, clean up every server of
  the copy, replace the queue by a new empty one of the same \<open>maxsize\<close>.  An exception
  raised by the \<open>logger.error\<close> of the handler in the clean-up loop leaves \<open>shutdown\<close>
  there, before the rest of the loop and before the queue is replaced.
\<close>

definition shutdown :: "logger \<Rightarrow> cleanup \<Rightarrow> pool \<Rightarrow> (exn + unit) \<times> pool" where
  "shutdown lg c p =
     (case drain_to (all_servers p) (p\<lparr>all_servers := []\<rparr>) of
        (servers_to_shutdown, p') \<Rightarrow>
          (case cleanup_each lg (\<lambda>s e. ShutdownCleanupFailed e) c servers_to_shutdown p' of
             (Some e, p'') \<Rightarrow> (Inl e, p'')
           | (None, p'') \<Rightarrow> (Inr (), p''\<lparr>available_servers := []\<rparr>)))"

subsection \<open>\<open>MCPServerStdioPool\<close>\<close>

text \<open>
  The constructor differs from \<open>new_pool\<close> only in taking the size from the settings
  when none is given.  In \<open>initialize\<close> the \<open>try\<close> is inside the loop, a created server
  is appended to \<open>all_servers\<close> at once, and the handler, after its \<open>logger.error\<close>,
  cleans up \<open>all_servers\<close>, clears it, empties the queue and re-raises.
\<close>

fun stdio_initialize_loop ::
  "logger \<Rightarrow> factory \<Rightarrow> cleanup \<Rightarrow> nat \<Rightarrow> pool \<Rightarrow> (exn + unit) \<times> pool" where
  "stdio_initialize_loop lg f c 0 p = (Inr (), p)"
| "stdio_initialize_loop lg f c (Suc n) p =
     (let p1 = p\<lparr>factory_calls := Suc (factory_calls p)\<rparr> in
      case (case f (factory_calls p) of
              Inl e \<Rightarrow> Inl e
            | Inr mcp_server \<Rightarrow>
                (case put_nowait mcp_server p1 of
                   Inl e \<Rightarrow> Inl e
                 | Inr p2 \<Rightarrow> Inr (p2\<lparr>all_servers := all_servers p2 @ [mcp_server]\<rparr>))) of
        Inl e \<Rightarrow>
          (case lg (StdioCreateFailed e) of
             Some e' \<Rightarrow> (Inl e', p1)
           | None \<Rightarrow>
               (case cleanup_each lg StdioPartialCleanupFailed c (all_servers p1) p1 of
                  (Some e', p'') \<Rightarrow> (Inl e', p'')
                | (None, p'') \<Rightarrow> (Inl e, drain_queue (p''\<lparr>all_servers := []\<rparr>))))
      | Inr p3 \<Rightarrow> stdio_initialize_loop lg f c n p3)"

definition stdio_initialize ::
  "logger \<Rightarrow> factory \<Rightarrow> cleanup \<Rightarrow> pool \<Rightarrow> (exn + unit) \<times> pool" where
  "stdio_initialize lg f c p = stdio_initialize_loop lg f c (nat (pool_size p)) p"

text \<open>
  In \<open>shutdown\<close> the queue is drained into \<open>all_servers\<close> itself, which is cleared after
  the clean-up loop.
\<close>

function stdio_drain :: "pool \<Rightarrow> pool" where
  "stdio_drain p =
     (if available_servers p = [] then p
      else (case get_nowait p of
              Inl e \<Rightarrow> p
            | Inr (server_in_queue, p') \<Rightarrow>
                stdio_drain (if server_in_queue \<notin> set (all_servers p')
                             then p'\<lparr>all_servers := all_servers p' @ [server_in_queue]\<rparr>
                             else p')))"
  by pat_completeness auto
termination
  by (relation "measure (\<lambda>p. length (available_servers p))")
     (auto simp: get_nowait_def split: list.splits)

declare stdio_drain.simps [simp del]

definition stdio_shutdown :: "logger \<Rightarrow> cleanup \<Rightarrow> pool \<Rightarrow> (exn + unit) \<times> pool" where
  "stdio_shutdown lg c p =
     (let p1 = stdio_drain p in
      case cleanup_each lg StdioShutdownCleanupFailed c (all_servers p1) p1 of
        (Some e, p2) \<Rightarrow> (Inl e, p2)
      | (None, p2) \<Rightarrow> (Inr (), p2\<lparr>all_servers := [], available_servers := []\<rparr>))"

subsection \<open>Sequences of calls\<close>

text \<open>
  A call of one of the four methods of \<open>GenericMCPServerPool\<close>, and the pool after a
  sequence of calls, whatever their outcomes.
\<close>

datatype call = Initialize factory | Acquire | Release "server option" bool | Shutdown

fun do_call :: "logger \<Rightarrow> cleanup \<Rightarrow> call \<Rightarrow> pool \<Rightarrow> pool" where
  "do_call lg c (Initialize f) p = snd (initialize lg f c p)"
| "do_call lg c Acquire p = snd (acquire p)"
| "do_call lg c (Release server is_healthy) p = snd (release lg c server is_healthy p)"
| "do_call lg c Shutdown p = snd (shutdown lg c p)"

fun run :: "logger \<Rightarrow> cleanup \<Rightarrow> call list \<Rightarrow> pool \<Rightarrow> pool" where
  "run lg c [] p = p"
| "run lg c (x # xs) p = run lg c xs (do_call lg c x p)"

text \<open>
  The traffic of consumers that keep to the contract of \<open>process_message\<close> in
  \<open>agent_manager.py\<close>: a server is acquired, and released once, by the consumer that
  holds it.  The second component is the list of servers lent out; a release of a
  server that is not lent, and any call that is not consumer traffic, is \<open>None\<close>.
\<close>

fun consumer_call ::
  "logger \<Rightarrow> cleanup \<Rightarrow> call \<Rightarrow> pool \<times> server list \<Rightarrow> (pool \<times> server list) option" where
  "consumer_call lg c Acquire (p, lent) =
     (case acquire p of
        (Returned s, p') \<Rightarrow> Some (p', s # lent)
      | (_, p') \<Rightarrow> Some (p', lent))"
| "consumer_call lg c (Release None is_healthy) (p, lent) =
     Some (snd (release lg c None is_healthy p), lent)"
| "consumer_call lg c (Release (Some s) is_healthy) (p, lent) =
     (if s \<in> set lent
      then Some (snd (release lg c (Some s) is_healthy p), remove1 s lent)
      else None)"
| "consumer_call lg c _ (p, lent) = None"

fun consumer_run ::
  "logger \<Rightarrow> cleanup \<Rightarrow> call list \<Rightarrow> pool \<times> server list \<Rightarrow> (pool \<times> server list) option" where
  "consumer_run lg c [] cfg = Some cfg"
| "consumer_run lg c (x # xs) cfg =
     (case consumer_call lg c x cfg of
        None \<Rightarrow> None
      | Some cfg' \<Rightarrow> consumer_run lg c xs cfg')"

section \<open>Properties\<close>

subsection \<open>Helper lemmas\<close>

lemma drain_queue_eq: "drain_queue p = p\<lparr>available_servers := []\<rparr>"
proof (induction "available_servers p" arbitrary: p)
  case Nil
  then show ?case by (simp add: drain_queue.simps [of p])
next
  case (Cons s rest)
  from Cons(2) have "drain_queue p = drain_queue (p\<lparr>available_servers := rest\<rparr>)"
    by (simp add: drain_queue.simps [of p] get_nowait_def split: list.splits)
       (metis list.inject list.distinct(1))
  also have "\<dots> = p\<lparr>available_servers := rest, available_servers := []\<rparr>"
    using Cons(1) [of "p\<lparr>available_servers := rest\<rparr>"] by simp
  finally show ?case by simp
qed

lemma create_servers_succeed:
  assumes "\<forall>i<m. f (factory_calls p + i) = Inr (g (factory_calls p + i))"
      and "int (length (available_servers p)) + int m \<le> pool_size p"
    shows "create_servers f m created p =
             (None, created @ map g [factory_calls p ..< factory_calls p + m],
              p\<lparr>factory_calls := factory_calls p + m,
                available_servers := available_servers p
                   @ map g [factory_calls p ..< factory_calls p + m]\<rparr>)"
  using assms
proof (induction m arbitrary: created p)
  case 0
  then show ?case by simp
next
  case (Suc m)
  let ?k = "factory_calls p"
  let ?p1 = "p\<lparr>factory_calls := Suc ?k\<rparr>"
  let ?p2 = "?p1\<lparr>available_servers := available_servers p @ [g ?k]\<rparr>"
  from Suc.prems(1) have f0: "f ?k = Inr (g ?k)" by force
  from Suc.prems(2) have put: "put_nowait (g ?k) ?p1 = Inr ?p2"
    by (simp add: put_nowait_def full_def)
  have step: "create_servers f (Suc m) created p = create_servers f m (created @ [g ?k]) ?p2"
    by (simp add: f0 put Let_def)
  have h1: "\<forall>i<m. f (factory_calls ?p2 + i) = Inr (g (factory_calls ?p2 + i))"
    using Suc.prems(1) by fastforce
  have h2: "int (length (available_servers ?p2)) + int m \<le> pool_size ?p2"
    using Suc.prems(2) by simp
  have up: "[?k ..< ?k + Suc m] = ?k # [Suc ?k ..< Suc ?k + m]"
    by (simp add: upt_conv_Cons)
  show ?case
    unfolding step Suc.IH [OF h1 h2] up by simp
qed

lemma create_servers_fail:
  assumes "\<forall>i<j. f (factory_calls p + i) = Inr (g (factory_calls p + i))"
      and "f (factory_calls p + j) = Inl e"
      and "j < m"
      and "int (length (available_servers p)) + int m \<le> pool_size p"
    shows "create_servers f m created p =
             (Some e, created @ map g [factory_calls p ..< factory_calls p + j],
              p\<lparr>factory_calls := Suc (factory_calls p + j),
                available_servers := available_servers p
                   @ map g [factory_calls p ..< factory_calls p + j]\<rparr>)"
  using assms
proof (induction j arbitrary: m created p)
  case 0
  then obtain m' where m: "m = Suc m'" by (cases m) auto
  from 0 show ?case by (simp add: m)
next
  case (Suc j)
  then obtain m' where m: "m = Suc m'" by (cases m) auto
  let ?k = "factory_calls p"
  let ?p1 = "p\<lparr>factory_calls := Suc ?k\<rparr>"
  let ?p2 = "?p1\<lparr>available_servers := available_servers p @ [g ?k]\<rparr>"
  from Suc.prems(1) have f0: "f ?k = Inr (g ?k)" by force
  from Suc.prems(3,4) have put: "put_nowait (g ?k) ?p1 = Inr ?p2"
    by (simp add: put_nowait_def full_def)
  have step: "create_servers f m created p = create_servers f m' (created @ [g ?k]) ?p2"
    by (simp add: m f0 put Let_def)
  have h1: "\<forall>i<j. f (factory_calls ?p2 + i) = Inr (g (factory_calls ?p2 + i))"
    using Suc.prems(1) by fastforce
  have h2: "f (factory_calls ?p2 + j) = Inl e"
    using Suc.prems(2) by simp
  have h3: "j < m'" using Suc.prems(3) m by simp
  have h4: "int (length (available_servers ?p2)) + int m' \<le> pool_size ?p2"
    using Suc.prems(4) m by simp
  have up: "[?k ..< ?k + Suc j] = ?k # [Suc ?k ..< Suc ?k + j]"
    by (simp add: upt_conv_Cons)
  show ?case
    unfolding step Suc.IH [OF h1 h2 h3 h4] up by simp
qed

lemma count_list_distinct: "distinct xs \<Longrightarrow> x \<in> set xs \<Longrightarrow> count_list xs x = 1"
  by (induction xs) auto

lemma drain_to_props:
  "\<exists>extra. drain_to sts p = (sts @ extra, p\<lparr>available_servers := []\<rparr>)
      \<and> distinct extra \<and> set extra = set (available_servers p) - set sts"
proof (induction "available_servers p" arbitrary: sts p)
  case Nil
  then show ?case by (simp add: drain_to.simps [of sts p])
next
  case (Cons s rest)
  let ?sts = "if s \<notin> set sts then sts @ [s] else sts"
  let ?p = "p\<lparr>available_servers := rest\<rparr>"
  from Cons(2) [symmetric] have step: "drain_to sts p = drain_to ?sts ?p"
    by (simp add: drain_to.simps [of sts p] get_nowait_def)
  from Cons(1) [of ?p ?sts] obtain extra where
    e: "drain_to ?sts ?p = (?sts @ extra, ?p\<lparr>available_servers := []\<rparr>)"
       "distinct extra" "set extra = set rest - set ?sts"
    by auto
  show ?case
  proof (cases "s \<in> set sts")
    case True
    with e step Cons(2) [symmetric] show ?thesis by auto
  next
    case False
    with e step have "drain_to sts p = (sts @ (s # extra), p\<lparr>available_servers := []\<rparr>)"
      by simp
    moreover from False e have "distinct (s # extra)" by auto
    moreover from False e Cons(2) [symmetric]
    have "set (s # extra) = set (available_servers p) - set sts" by auto
    ultimately show ?thesis by blast
  qed
qed

lemma stdio_drain_eq:
  "stdio_drain p =
     (case drain_to (all_servers p) (p\<lparr>all_servers := []\<rparr>) of
        (l, p') \<Rightarrow> p'\<lparr>all_servers := l\<rparr>)"
proof (induction "available_servers p" arbitrary: p)
  case Nil
  then show ?case
    by (simp add: stdio_drain.simps [of p] drain_to.simps [of _ "p\<lparr>all_servers := []\<rparr>"])
next
  case (Cons s rest)
  let ?all = "if s \<notin> set (all_servers p) then all_servers p @ [s] else all_servers p"
  let ?p = "p\<lparr>available_servers := rest, all_servers := ?all\<rparr>"
  from Cons(2) [symmetric] have s1: "stdio_drain p = stdio_drain ?p"
    by (simp add: stdio_drain.simps [of p] get_nowait_def)
  have sw: "p\<lparr>all_servers := [], available_servers := rest\<rparr> = ?p\<lparr>all_servers := []\<rparr>"
    by (cases p) simp
  from Cons(2) [symmetric]
  have s2: "drain_to (all_servers p) (p\<lparr>all_servers := []\<rparr>)
            = drain_to ?all (?p\<lparr>all_servers := []\<rparr>)"
    unfolding sw [symmetric]
    by (simp add: drain_to.simps [of _ "p\<lparr>all_servers := []\<rparr>"] get_nowait_def)
  have "stdio_drain ?p =
     (case drain_to (all_servers ?p) (?p\<lparr>all_servers := []\<rparr>) of
        (l, p') \<Rightarrow> p'\<lparr>all_servers := l\<rparr>)"
    by (rule Cons(1)) simp
  then show ?case unfolding s1 s2 by simp
qed

lemma count_list_append: "count_list (xs @ ys) x = count_list xs x + count_list ys x"
  by (induction xs) auto

lemma count_list_notin: "x \<notin> set xs \<Longrightarrow> count_list xs x = 0"
  by (induction xs) auto


lemma put_nowait_raises: "put_nowait s p = Inl e \<Longrightarrow> e = QueueFull"
  by (simp add: put_nowait_def split: if_splits)

lemma forget_eq: "forget s p = p\<lparr>all_servers := remove1 s (all_servers p)\<rparr>"
  by (simp add: forget_def remove1_idem)

lemma try_cleanup_eq:
  "try_cleanup lg site c s p =
     ((case c s of None \<Rightarrow> None | Some e \<Rightarrow> lg (site s e)),
      p\<lparr>cleanup_calls := cleanup_calls p @ [s]\<rparr>)"
  by (simp add: try_cleanup_def cleanup_call_def split: option.splits)

lemma cleanup_each_quiet:
  "\<forall>s\<in>set xs. \<forall>e. c s = Some e \<longrightarrow> lg (site s e) = None \<Longrightarrow>
     cleanup_each lg site c xs p = (None, p\<lparr>cleanup_calls := cleanup_calls p @ xs\<rparr>)"
proof (induction xs arbitrary: p)
  case Nil
  then show ?case by simp
next
  case (Cons s xs)
  then have "(case c s of None \<Rightarrow> None | Some e \<Rightarrow> lg (site s e)) = None"
    by (cases "c s") simp_all
  with Cons show ?case by (simp add: try_cleanup_eq)
qed

lemma cleanup_each_calls:
  "cleanup_each lg site c xs p = (r, p') \<Longrightarrow>
     \<exists>k\<le>length xs. p' = p\<lparr>cleanup_calls := cleanup_calls p @ take k xs\<rparr>"
proof (induction xs arbitrary: p)
  case Nil
  then show ?case by simp
next
  case (Cons s xs)
  let ?q = "p\<lparr>cleanup_calls := cleanup_calls p @ [s]\<rparr>"
  show ?case
  proof (cases "case c s of None \<Rightarrow> None | Some e \<Rightarrow> lg (site s e)")
    case None
    with Cons.prems have "cleanup_each lg site c xs ?q = (r, p')"
      by (simp add: try_cleanup_eq)
    from Cons.IH [OF this] obtain k where
      k: "k \<le> length xs" "p' = ?q\<lparr>cleanup_calls := cleanup_calls ?q @ take k xs\<rparr>"
      by blast
    then have "Suc k \<le> length (s # xs)
               \<and> p' = p\<lparr>cleanup_calls := cleanup_calls p @ take (Suc k) (s # xs)\<rparr>"
      by simp
    then show ?thesis by blast
  next
    case (Some e')
    with Cons.prems have "p' = ?q" by (simp add: try_cleanup_eq)
    then have "Suc 0 \<le> length (s # xs)
               \<and> p' = p\<lparr>cleanup_calls := cleanup_calls p @ take (Suc 0) (s # xs)\<rparr>"
      by simp
    then show ?thesis by blast
  qed
qed

lemma cleanup_and_forget_eq:
  "cleanup_and_forget lg site c s p =
     ((case c s of
         None \<Rightarrow> Inr ()
       | Some e \<Rightarrow> (case lg (site s e) of None \<Rightarrow> Inr () | Some e' \<Rightarrow> Inl e')),
      p\<lparr>cleanup_calls := cleanup_calls p @ [s],
        all_servers := remove1 s (all_servers p)\<rparr>)"
  by (simp add: cleanup_and_forget_def try_cleanup_eq forget_eq split: option.splits)

lemma release_healthy_eq:
  "release lg c (Some s) True p =
     (if full p then cleanup_and_forget lg (\<lambda>s e. FullQueueCleanupFailed e) c s p
      else (Inr (), p\<lparr>available_servers := available_servers p @ [s]\<rparr>))"
  by (simp add: release_def put_nowait_def)

lemma release_unhealthy_eq:
  "release lg c (Some s) False p =
     cleanup_and_forget lg (\<lambda>s e. UnhealthyCleanupFailed e) c s p"
  by (simp add: release_def)

lemma stdio_loop_fail:
  assumes "\<forall>i<j. f (factory_calls p + i) = Inr (g (factory_calls p + i))"
      and "f (factory_calls p + j) = Inl e"
      and "j < m"
      and "int (length (available_servers p)) + int m \<le> pool_size p"
      and "lg (StdioCreateFailed e) = None"
      and "\<forall>s x. c s = Some x \<longrightarrow> lg (StdioPartialCleanupFailed s x) = None"
    shows "stdio_initialize_loop lg f c m p =
             (Inl e,
              p\<lparr>factory_calls := Suc (factory_calls p + j),
                available_servers := [],
                all_servers := [],
                cleanup_calls := cleanup_calls p @ all_servers p
                   @ map g [factory_calls p ..< factory_calls p + j]\<rparr>)"
  using assms(1-4)
proof (induction j arbitrary: m p)
  case 0
  then obtain m' where m: "m = Suc m'" by (cases m) auto
  have q: "cleanup_each lg StdioPartialCleanupFailed c (all_servers p)
             (p\<lparr>factory_calls := Suc (factory_calls p)\<rparr>)
           = (None, p\<lparr>factory_calls := Suc (factory_calls p),
                       cleanup_calls := cleanup_calls p @ all_servers p\<rparr>)"
    using assms(6) by (simp add: cleanup_each_quiet)
  from 0 show ?case by (simp add: m assms(5) q drain_queue_eq)
next
  case (Suc j)
  then obtain m' where m: "m = Suc m'" by (cases m) auto
  let ?k = "factory_calls p"
  let ?p1 = "p\<lparr>factory_calls := Suc ?k\<rparr>"
  let ?p3 = "?p1\<lparr>available_servers := available_servers p @ [g ?k],
                   all_servers := all_servers p @ [g ?k]\<rparr>"
  from Suc.prems(1) have f0: "f ?k = Inr (g ?k)" by force
  from Suc.prems(3,4) have put: "put_nowait (g ?k) ?p1 =
      Inr (?p1\<lparr>available_servers := available_servers p @ [g ?k]\<rparr>)"
    by (simp add: put_nowait_def full_def)
  have step: "stdio_initialize_loop lg f c m p = stdio_initialize_loop lg f c m' ?p3"
    by (simp add: m f0 put Let_def)
  have h1: "\<forall>i<j. f (factory_calls ?p3 + i) = Inr (g (factory_calls ?p3 + i))"
    using Suc.prems(1) by fastforce
  have h2: "f (factory_calls ?p3 + j) = Inl e"
    using Suc.prems(2) by simp
  have h3: "j < m'" using Suc.prems(3) m by simp
  have h4: "int (length (available_servers ?p3)) + int m' \<le> pool_size ?p3"
    using Suc.prems(4) m by simp
  have up: "[?k ..< ?k + Suc j] = ?k # [Suc ?k ..< Suc ?k + j]"
    by (simp add: upt_conv_Cons)
  show ?case
    unfolding step Suc.IH [OF h1 h2 h3 h4] up by simp
qed

text \<open>
  The roll-back of a failed initialisation when every \<open>logger.error\<close> call of the
  handler returns: \<open>initialize\<close> raises the factory's exception, every created server is
  cleaned up once, in creation order, and the queue and \<open>all_servers\<close> are empty.
\<close>

lemma initialize_failure_rollback:
  assumes "0 < n" and "1 \<le> k" and "k \<le> nat n"
      and "\<forall>i<k - 1. f i = Inr (g i)"
      and "f (k - 1) = Inl e"
      and "lg (InitializeFailed e) = None"
      and "\<forall>i<k - 1. \<forall>x. c (g i) = Some x \<longrightarrow> lg (PartialCleanupFailed (g i) x) = None"
    shows "initialize lg f c
             \<lparr>pool_size = n, available_servers = [], all_servers = [],
              factory_calls = 0, cleanup_calls = []\<rparr>
           = (Inl e, \<lparr>pool_size = n, available_servers = [], all_servers = [],
                       factory_calls = k, cleanup_calls = map g [0 ..< k - 1]\<rparr>)"
proof -
  define p0 where "p0 = \<lparr>pool_size = n, available_servers = [], all_servers = [],
                          factory_calls = 0, cleanup_calls = []\<rparr>"
  have a: "\<forall>i<k - 1. f (factory_calls p0 + i) = Inr (g (factory_calls p0 + i))"
    using assms(4) by (simp add: p0_def)
  have b: "f (factory_calls p0 + (k - 1)) = Inl e"
    using assms(5) by (simp add: p0_def)
  have d: "k - 1 < nat (pool_size p0)"
    using assms(2,3) by (simp add: p0_def)
  have m: "int (length (available_servers p0)) + int (nat (pool_size p0)) \<le> pool_size p0"
    using assms(1) by (simp add: p0_def)
  define created where "created = map g [0 ..< k - 1]"
  define p' where "p' = p0\<lparr>factory_calls := k, available_servers := created\<rparr>"
  have cs: "create_servers f (nat (pool_size p0)) [] p0 = (Some e, created, p')"
    using create_servers_fail [OF a b d m, of "[]"] assms(2)
    by (simp add: created_def p'_def p0_def)
  have q: "\<forall>s\<in>set created. \<forall>x. c s = Some x
              \<longrightarrow> lg (PartialCleanupFailed s x) = None"
    using assms(7) by (auto simp: created_def)
  have ce: "cleanup_each lg PartialCleanupFailed c created p'
              = (None, p'\<lparr>cleanup_calls := cleanup_calls p' @ created\<rparr>)"
    by (rule cleanup_each_quiet [OF q])
  have "initialize lg f c p0
          = (Inl e, p'\<lparr>cleanup_calls := cleanup_calls p' @ created,
                       available_servers := [], all_servers := []\<rparr>)"
    by (simp add: initialize_def cs assms(6) ce drain_queue_eq)
  then show ?thesis by (simp add: p'_def p0_def created_def)
qed

lemma stdio_initialize_failure_rollback:
  assumes "0 < n" and "1 \<le> k" and "k \<le> nat n"
      and "\<forall>i<k - 1. f i = Inr (g i)"
      and "f (k - 1) = Inl e"
      and "lg (StdioCreateFailed e) = None"
      and "\<forall>s x. c s = Some x \<longrightarrow> lg (StdioPartialCleanupFailed s x) = None"
    shows "stdio_initialize lg f c
             \<lparr>pool_size = n, available_servers = [], all_servers = [],
              factory_calls = 0, cleanup_calls = []\<rparr>
           = (Inl e, \<lparr>pool_size = n, available_servers = [], all_servers = [],
                       factory_calls = k, cleanup_calls = map g [0 ..< k - 1]\<rparr>)"
proof -
  define p0 where "p0 = \<lparr>pool_size = n, available_servers = [], all_servers = [],
                          factory_calls = 0, cleanup_calls = []\<rparr>"
  have a: "\<forall>i<k - 1. f (factory_calls p0 + i) = Inr (g (factory_calls p0 + i))"
    using assms(4) by (simp add: p0_def)
  have b: "f (factory_calls p0 + (k - 1)) = Inl e"
    using assms(5) by (simp add: p0_def)
  have d: "k - 1 < nat (pool_size p0)"
    using assms(2,3) by (simp add: p0_def)
  have m: "int (length (available_servers p0)) + int (nat (pool_size p0)) \<le> pool_size p0"
    using assms(1) by (simp add: p0_def)
  have "stdio_initialize lg f c p0
          = (Inl e, p0\<lparr>factory_calls := k, cleanup_calls := map g [0 ..< k - 1]\<rparr>)"
    using assms(2)
    by (simp add: stdio_initialize_def stdio_loop_fail [OF a b d m assms(6,7)])
       (simp add: p0_def)
  then show ?thesis by (simp add: p0_def)
qed

lemma drain_to_all_servers:
  "\<exists>extra. drain_to (all_servers p) (p\<lparr>all_servers := []\<rparr>)
             = (all_servers p @ extra, p\<lparr>all_servers := [], available_servers := []\<rparr>)
      \<and> distinct extra \<and> set extra = set (available_servers p) - set (all_servers p)"
  using drain_to_props [of "all_servers p" "p\<lparr>all_servers := []\<rparr>"] by auto

lemma shutdown_state:
  "\<exists>new. snd (shutdown lg c p)
           = p\<lparr>all_servers := [], available_servers := [],
               cleanup_calls := cleanup_calls p @ new\<rparr>"
proof -
  obtain extra where
    e: "drain_to (all_servers p) (p\<lparr>all_servers := []\<rparr>)
          = (all_servers p @ extra, p\<lparr>all_servers := [], available_servers := []\<rparr>)"
    using drain_to_all_servers by blast
  let ?q = "p\<lparr>all_servers := [], available_servers := []\<rparr>"
  obtain r q' where ce: "cleanup_each lg (\<lambda>s e. ShutdownCleanupFailed e) c
                           (all_servers p @ extra) ?q = (r, q')"
    by (cases "cleanup_each lg (\<lambda>s e. ShutdownCleanupFailed e) c (all_servers p @ extra) ?q")
  from cleanup_each_calls [OF ce] obtain k where
    q': "q' = ?q\<lparr>cleanup_calls := cleanup_calls ?q @ take k (all_servers p @ extra)\<rparr>"
    by blast
  have "snd (shutdown lg c p)
          = p\<lparr>all_servers := [], available_servers := [],
              cleanup_calls := cleanup_calls p @ take k (all_servers p @ extra)\<rparr>"
    by (cases r) (simp_all add: shutdown_def e ce q')
  then show ?thesis by blast
qed

text \<open>
  \<open>shutdown\<close> when every \<open>logger.error\<close> call of its handler returns: it returns
  normally, calls \<open>cleanup()\<close> once for every entry of \<open>all_servers\<close>, and leaves
  \<open>all_servers\<close> and the queue empty; \<open>MCPServerStdioPool.shutdown\<close> does the same.
\<close>

lemma shutdown_disposes_when_logged:
  assumes "\<forall>s x. c s = Some x \<longrightarrow> lg (ShutdownCleanupFailed x) = None"
    shows "\<exists>new. shutdown lg c p
                  = (Inr (), p\<lparr>all_servers := [], available_servers := [],
                               cleanup_calls := cleanup_calls p @ new\<rparr>)
      \<and> (\<forall>s \<in> set (all_servers p). count_list new s = count_list (all_servers p) s)
      \<and> (distinct (all_servers p) \<longrightarrow> (\<forall>s \<in> set (all_servers p). count_list new s = 1))"
proof -
  obtain extra where
    e: "drain_to (all_servers p) (p\<lparr>all_servers := []\<rparr>)
          = (all_servers p @ extra, p\<lparr>all_servers := [], available_servers := []\<rparr>)"
    and d: "set extra = set (available_servers p) - set (all_servers p)"
    using drain_to_all_servers by blast
  let ?new = "all_servers p @ extra"
  let ?q = "p\<lparr>all_servers := [], available_servers := []\<rparr>"
  have q: "\<forall>s\<in>set ?new. \<forall>x. c s = Some x \<longrightarrow> lg ((\<lambda>s e. ShutdownCleanupFailed e) s x) = None"
    using assms by simp
  have ce: "cleanup_each lg (\<lambda>s e. ShutdownCleanupFailed e) c ?new ?q
              = (None, ?q\<lparr>cleanup_calls := cleanup_calls ?q @ ?new\<rparr>)"
    by (rule cleanup_each_quiet [OF q])
  have sh: "shutdown lg c p = (Inr (), p\<lparr>all_servers := [], available_servers := [],
                             cleanup_calls := cleanup_calls p @ ?new\<rparr>)"
    by (simp add: shutdown_def e ce)
  have cnt: "\<forall>s \<in> set (all_servers p). count_list ?new s = count_list (all_servers p) s"
    using d by (simp add: count_list_append count_list_notin)
  have one: "distinct (all_servers p) \<longrightarrow> (\<forall>s \<in> set (all_servers p). count_list ?new s = 1)"
    using cnt count_list_distinct [of "all_servers p"] by simp
  show ?thesis
    using sh cnt one by (intro exI [of _ ?new]) simp
qed

lemma stdio_shutdown_as_shutdown:
  assumes "\<forall>s x. c s = Some x \<longrightarrow> lg (StdioShutdownCleanupFailed s x) = None"
      and "\<forall>s x. c s = Some x \<longrightarrow> lg (ShutdownCleanupFailed x) = None"
    shows "stdio_shutdown lg c p = shutdown lg c p"
proof -
  obtain extra where
    e: "drain_to (all_servers p) (p\<lparr>all_servers := []\<rparr>)
          = (all_servers p @ extra, p\<lparr>all_servers := [], available_servers := []\<rparr>)"
    using drain_to_all_servers by blast
  let ?new = "all_servers p @ extra"
  have q1: "\<forall>s\<in>set ?new. \<forall>x. c s = Some x \<longrightarrow> lg ((\<lambda>s e. ShutdownCleanupFailed e) s x) = None"
    using assms(2) by simp
  have q2: "\<forall>s\<in>set ?new. \<forall>x. c s = Some x \<longrightarrow> lg (StdioShutdownCleanupFailed s x) = None"
    using assms(1) by simp
  show ?thesis
    by (simp add: stdio_shutdown_def shutdown_def stdio_drain_eq e Let_def
          cleanup_each_quiet [OF q1] cleanup_each_quiet [OF q2])
qed

text \<open>
  \<open>release\<close> returns normally when the \<open>logger.error\<close> call of its handler returns.
\<close>

lemma release_returns_when_logged:
  assumes "\<forall>s e. server = Some s \<longrightarrow> c s = Some e \<longrightarrow>
             lg (FullQueueCleanupFailed e) = None \<and> lg (UnhealthyCleanupFailed e) = None"
    shows "fst (release lg c server is_healthy p) = Inr ()"
proof (cases server)
  case None
  then show ?thesis by (simp add: release_def)
next
  case (Some s)
  with assms show ?thesis
    by (cases is_healthy; cases "c s")
       (simp_all add: release_healthy_eq release_unhealthy_eq cleanup_and_forget_eq)
qed

lemma create_servers_shape:
  "create_servers f m created p = (r, cr, p') \<Longrightarrow>
     all_servers p' = all_servers p \<and> pool_size p' = pool_size p
     \<and> (0 < pool_size p \<longrightarrow> int (length (available_servers p)) \<le> pool_size p
            \<longrightarrow> int (length (available_servers p')) \<le> pool_size p)
     \<and> (r = None \<longrightarrow> (\<exists>new. length new = m \<and> cr = created @ new
            \<and> available_servers p' = available_servers p @ new))"
proof (induction m arbitrary: created p)
  case 0
  then show ?case by simp
next
  case (Suc m)
  let ?p1 = "p\<lparr>factory_calls := Suc (factory_calls p)\<rparr>"
  show ?case
  proof (cases "f (factory_calls p)")
    case (Inl e)
    with Suc.prems show ?thesis by (auto simp: Let_def)
  next
    case (Inr s)
    show ?thesis
    proof (cases "full ?p1")
      case True
      with Inr Suc.prems show ?thesis by (auto simp: Let_def put_nowait_def)
    next
      case False
      let ?p2 = "?p1\<lparr>available_servers := available_servers p @ [s]\<rparr>"
      from False Inr Suc.prems
      have rec: "create_servers f m (created @ [s]) ?p2 = (r, cr, p')"
        by (simp add: Let_def put_nowait_def)
      from False have room: "0 < pool_size p \<longrightarrow> int (length (available_servers ?p2)) \<le> pool_size p"
        by (auto simp: full_def split: if_splits)
      from Suc.IH [OF rec] room show ?thesis
        by (auto simp: length_Suc_conv)
    qed
  qed
qed





lemma initialize_new_pool:
  assumes "new_pool n = Inr p0" and "initialize lg f c p0 = (Inr (), p1)"
    shows "mset (available_servers p1) = mset (all_servers p1)
         \<and> int (length (all_servers p1)) \<le> n \<and> pool_size p1 = n"
proof -
  from assms(1) have n: "0 < n"
    and p0: "p0 = \<lparr>pool_size = n, available_servers = [], all_servers = [],
                    factory_calls = 0, cleanup_calls = []\<rparr>"
    by (auto simp: new_pool_def split: if_splits)
  obtain r' cr p' where cs: "create_servers f (nat (pool_size p0)) [] p0 = (r', cr, p')"
    by (cases "create_servers f (nat (pool_size p0)) [] p0") auto
  note sh = create_servers_shape [OF cs]
  have ok: "r' = None"
  proof (rule ccontr)
    assume "r' \<noteq> None"
    then obtain e where "r' = Some e" by auto
    then have "fst (initialize lg f c p0) \<noteq> Inr ()"
      by (auto simp: initialize_def cs split: option.splits prod.splits)
    with assms(2) show False by simp
  qed
  with sh obtain new where new: "length new = nat (pool_size p0)" "cr = new"
    "available_servers p' = available_servers p0 @ new"
    by auto
  from sh have same: "all_servers p' = []" "pool_size p' = n" by (simp_all add: p0)
  have "initialize lg f c p0 = (Inr (), p'\<lparr>all_servers := all_servers p' @ cr\<rparr>)"
    by (simp add: initialize_def cs ok)
  with assms(2) have p1: "p1 = p'\<lparr>all_servers := all_servers p' @ cr\<rparr>" by simp
  from new n have "available_servers p' = new" "int (length new) = n" by (simp_all add: p0)
  with same new(2) show ?thesis unfolding p1 by simp
qed

lemma consumer_call_inv:
  assumes "consumer_call lg c x (p, lent) = Some (p', lent')"
      and "mset (available_servers p) + mset lent = mset (all_servers p)"
      and "int (length (all_servers p)) \<le> pool_size p"
    shows "mset (available_servers p') + mset lent' = mset (all_servers p')
         \<and> int (length (all_servers p')) \<le> pool_size p' \<and> pool_size p' = pool_size p"
proof (cases x)
  case (Initialize f)
  with assms(1) show ?thesis by simp
next
  case Acquire
  with assms show ?thesis
    by (cases "available_servers p") (auto simp: acquire_def)
next
  case (Release server h)
  show ?thesis
  proof (cases server)
    case None
    with Release assms show ?thesis by (simp add: release_def)
  next
    case (Some s)
    with Release assms(1) have s: "s \<in> set lent"
      and r: "p' = snd (release lg c (Some s) h p)" and l: "lent' = remove1 s lent"
      by (auto split: if_splits)
    from assms(2) have sz: "length (available_servers p) + length lent = length (all_servers p)"
      by (metis size_mset size_union)
    from s have "0 < length lent" by (cases lent) auto
    with sz have "length (available_servers p) < length (all_servers p)" by linarith
    with assms(3) have nf: "\<not> full p" unfolding full_def by auto
    from s assms(2) have tr: "s \<in> set (all_servers p)"
      by (metis in_multiset_in_set union_iff)
    show ?thesis
    proof (cases h)
      case True
      with r nf have "p' = p\<lparr>available_servers := available_servers p @ [s]\<rparr>"
        by (simp add: release_healthy_eq)
      moreover have "mset (available_servers p @ [s]) + mset (remove1 s lent)
                       = mset (available_servers p) + mset lent"
        using s by simp
      ultimately show ?thesis using l assms(2,3) by simp
    next
      case False
      with r have p': "p' = p\<lparr>cleanup_calls := cleanup_calls p @ [s],
                     all_servers := remove1 s (all_servers p)\<rparr>"
        by (simp add: release_unhealthy_eq cleanup_and_forget_eq)
      have "mset (available_servers p) + mset (remove1 s lent)
              = mset (remove1 s (all_servers p))"
        using s assms(2) by (metis in_multiset_in_set mset_remove1 union_single_eq_diff
            add_mset_remove_trivial diff_union_single_conv union_mset_add_mset_right)
      moreover have "length (remove1 s (all_servers p)) \<le> length (all_servers p)"
        by (simp add: length_remove1)
      ultimately show ?thesis using p' l assms(3) by simp
    qed
  qed
next
  case Shutdown
  with assms(1) show ?thesis by simp
qed

lemma consumer_run_inv:
  "consumer_run lg c ops (p, lent) = Some (p', lent') \<Longrightarrow>
   mset (available_servers p) + mset lent = mset (all_servers p) \<Longrightarrow>
   int (length (all_servers p)) \<le> pool_size p \<Longrightarrow>
     mset (available_servers p') + mset lent' = mset (all_servers p')
     \<and> int (length (all_servers p')) \<le> pool_size p' \<and> pool_size p' = pool_size p"
proof (induction ops arbitrary: p lent)
  case Nil
  then show ?case by simp
next
  case (Cons x xs)
  from Cons.prems(1) obtain q l where
    st: "consumer_call lg c x (p, lent) = Some (q, l)"
    and rest: "consumer_run lg c xs (q, l) = Some (p', lent')"
    by (auto split: option.splits)
  from consumer_call_inv [OF st Cons.prems(2,3)]
  have i: "mset (available_servers q) + mset l = mset (all_servers q)"
    "int (length (all_servers q)) \<le> pool_size q" "pool_size q = pool_size p"
    by simp_all
  from Cons.IH [OF rest i(1,2)] i(3) show ?case by simp
qed


lemma release_unhealthy_tracked:
  assumes "acquire p = (Returned s, p1)"
      and "s \<in> set (all_servers p)"
    shows "\<exists>r p2. release lg c (Some s) False p1 = (r, p2)
             \<and> ((\<forall>e. c s = Some e \<longrightarrow> lg (UnhealthyCleanupFailed e) = None) \<longrightarrow> r = Inr ())
             \<and> cleanup_calls p2 = cleanup_calls p @ [s]
             \<and> all_servers p2 = remove1 s (all_servers p)
             \<and> length (all_servers p2) + 1 = length (all_servers p)
             \<and> set (all_servers p2) \<subseteq> set (all_servers p)
             \<and> available_servers p2 = available_servers p1
             \<and> available_servers p = s # available_servers p2
             \<and> factory_calls p2 = factory_calls p
             \<and> pool_size p2 = pool_size p
             \<and> (distinct (all_servers p) \<longrightarrow> s \<notin> set (all_servers p2))
             \<and> (distinct (available_servers p) \<longrightarrow> s \<notin> set (available_servers p2))"
proof -
  from assms(1) obtain rest where av: "available_servers p = s # rest"
    and p1: "p1 = p\<lparr>available_servers := rest\<rparr>"
    by (auto simp: acquire_def split: list.splits)
  let ?r = "case c s of
              None \<Rightarrow> Inr ()
            | Some e \<Rightarrow> (case lg (UnhealthyCleanupFailed e) of
                           None \<Rightarrow> Inr () | Some e' \<Rightarrow> Inl e')"
  let ?p2 = "p\<lparr>available_servers := rest, cleanup_calls := cleanup_calls p @ [s],
                all_servers := remove1 s (all_servers p)\<rparr>"
  have r: "release lg c (Some s) False p1 = (?r, ?p2)"
    by (simp add: release_unhealthy_eq cleanup_and_forget_eq p1)
  have ok: "(\<forall>e. c s = Some e \<longrightarrow> lg (UnhealthyCleanupFailed e) = None) \<longrightarrow> ?r = Inr ()"
    by (cases "c s") simp_all
  have len: "length (remove1 s (all_servers p)) + 1 = length (all_servers p)"
  proof -
    from assms(2) have "0 < length (all_servers p)" by (cases "all_servers p") auto
    with assms(2) show ?thesis by (simp add: length_remove1)
  qed
  have sub: "set (remove1 s (all_servers p)) \<subseteq> set (all_servers p)"
    by (rule set_remove1_subset)
  have d1: "distinct (all_servers p) \<longrightarrow> s \<notin> set (remove1 s (all_servers p))"
    by simp
  have d2: "distinct (available_servers p) \<longrightarrow> s \<notin> set rest"
    using av by auto
  have e: "available_servers ?p2 = rest" "available_servers p1 = rest"
    "cleanup_calls ?p2 = cleanup_calls p @ [s]"
    "all_servers ?p2 = remove1 s (all_servers p)"
    "factory_calls ?p2 = factory_calls p" "pool_size ?p2 = pool_size p"
    by (simp_all add: p1)
  show ?thesis
    apply (intro exI [of _ ?r] exI [of _ ?p2] conjI)
    using r ok av len sub d1 d2 unfolding e by blast+
qed




subsection \<open>Successful initialisation\<close>

text \<open>
  Claim C2.  For every capacity \<open>n > 0\<close> and a factory that succeeds at each of its
  \<open>n\<close> calls, the constructor and then \<open>initialize()\<close> return normally, and afterwards
  the queue of available servers holds exactly the \<open>n\<close> servers the \<open>n\<close> factory calls
  created, in creation order, and the tracked list \<open>all_servers\<close> holds the same
  servers; so both have \<open>n\<close> elements, and the factory was called \<open>n\<close> times.
\<close>

theorem initialize_success:
  assumes "0 < n"
      and "\<forall>i<nat n. f i = Inr (g i)"
    shows "\<exists>p0 p1. new_pool n = Inr p0
             \<and> initialize lg f c p0 = (Inr (), p1)
             \<and> available_servers p1 = map g [0 ..< nat n]
             \<and> all_servers p1 = map g [0 ..< nat n]
             \<and> int (length (available_servers p1)) = n
             \<and> int (length (all_servers p1)) = n
             \<and> factory_calls p1 = nat n
             \<and> cleanup_calls p1 = []"
proof -
  define p0 where "p0 = \<lparr>pool_size = n, available_servers = [], all_servers = [],
                          factory_calls = 0, cleanup_calls = []\<rparr>"
  have new: "new_pool n = Inr p0"
    using assms(1) by (simp add: new_pool_def p0_def)
  have a: "\<forall>i<nat n. f (factory_calls p0 + i) = Inr (g (factory_calls p0 + i))"
    using assms(2) by (simp add: p0_def)
  have b: "int (length (available_servers p0)) + int (nat n) \<le> pool_size p0"
    using assms(1) by (simp add: p0_def)
  have cs: "create_servers f (nat (pool_size p0)) [] p0 =
              (None, map g [0 ..< nat n],
               p0\<lparr>factory_calls := nat n, available_servers := map g [0 ..< nat n]\<rparr>)"
    using create_servers_succeed [OF a b, of "[]"] by (simp add: p0_def)
  have "initialize lg f c p0 =
          (Inr (), p0\<lparr>factory_calls := nat n, available_servers := map g [0 ..< nat n],
                       all_servers := map g [0 ..< nat n]\<rparr>)"
    by (simp add: initialize_def cs) (simp add: p0_def)
  with new assms(1) show ?thesis
    by (intro exI [of _ p0] exI) (auto simp: p0_def)
qed

theorem initialize_success_witness:
  "\<exists>p0 p1. new_pool 2 = Inr p0
     \<and> initialize (\<lambda>x. None) (\<lambda>i. Inr (10 + i)) (\<lambda>s. None) p0 = (Inr (), p1)
     \<and> available_servers p1 = [10, 11]
     \<and> all_servers p1 = [10, 11]"
proof -
  have u: "[0 ..< nat 2] = [0, Suc 0]" by (simp add: upt_conv_Cons)
  show ?thesis
    using initialize_success [where n = 2 and lg = "\<lambda>x. None" and f = "\<lambda>i. Inr (10 + i)"
        and g = "\<lambda>i. 10 + i" and c = "\<lambda>s. None"]
    unfolding u by simp blast
qed

subsection \<open>Release\<close>

text \<open>
  Claim C9.  In every pool whose queue is not empty and holds at most \<open>pool_size\<close>
  servers (the bound of \<open>asyncio.Queue(maxsize=pool_size)\<close>, kept by every call, see
  \<open>run_queue_bound\<close>), \<open>acquire()\<close> returns the oldest server \<open>s\<close>, and
  \<open>release(s, True)\<close> right after it returns normally and puts \<open>s\<close> at the end of the
  queue: the queue is as long as before the \<open>acquire()\<close>, \<open>all_servers\<close> is the same
  after each of the two calls, and no \<open>cleanup()\<close> is called.
\<close>

theorem acquire_release_round_trip:
  assumes "available_servers p \<noteq> []"
      and "int (length (available_servers p)) \<le> pool_size p"
    shows "\<exists>s p1 p2. acquire p = (Returned s, p1)
             \<and> release lg c (Some s) True p1 = (Inr (), p2)
             \<and> length (available_servers p2) = length (available_servers p)
             \<and> available_servers p2 = tl (available_servers p) @ [s]
             \<and> all_servers p1 = all_servers p
             \<and> all_servers p2 = all_servers p
             \<and> cleanup_calls p2 = cleanup_calls p"
proof -
  from assms(1) obtain s rest where av: "available_servers p = s # rest"
    by (cases "available_servers p") auto
  let ?p1 = "p\<lparr>available_servers := rest\<rparr>"
  let ?p2 = "p\<lparr>available_servers := rest @ [s]\<rparr>"
  have a: "acquire p = (Returned s, ?p1)" by (simp add: acquire_def av)
  have nf: "\<not> full ?p1" using assms(2) av by (simp add: full_def)
  have r: "release lg c (Some s) True ?p1 = (Inr (), ?p2)"
    by (simp add: release_healthy_eq nf)
  show ?thesis
    using a r av by (intro exI [of _ s] exI [of _ ?p1] exI [of _ ?p2]) simp
qed

theorem acquire_release_round_trip_witness:
  "\<exists>p1 p2. acquire \<lparr>pool_size = 2, available_servers = [10, 11], all_servers = [10, 11],
                    factory_calls = 2, cleanup_calls = []\<rparr> = (Returned 10, p1)
     \<and> release (\<lambda>x. None) (\<lambda>s. None) (Some 10) True p1 = (Inr (), p2)
     \<and> available_servers p2 = [11, 10]
     \<and> all_servers p2 = [10, 11]"
proof -
  let ?p = "\<lparr>pool_size = 2, available_servers = [10, 11], all_servers = [10, 11],
                    factory_calls = 2, cleanup_calls = []\<rparr>"
  have a: "available_servers ?p \<noteq> []" by simp
  have b: "int (length (available_servers ?p)) \<le> pool_size ?p" by simp
  from acquire_release_round_trip [OF a b, where lg = "\<lambda>x. None" and c = "\<lambda>s. None"]
  obtain s p1 p2 where h: "acquire ?p = (Returned s, p1)"
    "release (\<lambda>x. None) (\<lambda>s. None) (Some s) True p1 = (Inr (), p2)"
    "available_servers p2 = tl (available_servers ?p) @ [s]"
    "all_servers p2 = all_servers ?p"
    by blast
  from h(1) have "s = 10" by (simp add: acquire_def)
  with h show ?thesis by auto
qed

text \<open>
  Claim C10.  While the queue holds fewer than \<open>pool_size\<close> servers, \<open>release(s, True)\<close>
  appends \<open>s\<close> to the queue and changes nothing else, for every \<open>s\<close>: whether \<open>s\<close> is
  in \<open>all_servers\<close> or already in the queue is not looked at.  A healthy release calls
  \<open>cleanup()\<close>, and touches \<open>all_servers\<close>, only when the queue is full.
\<close>

theorem release_healthy_unchecked:
  "(int (length (available_servers p)) < pool_size p \<longrightarrow>
      release lg c (Some s) True p
        = (Inr (), p\<lparr>available_servers := available_servers p @ [s]\<rparr>))
   \<and> (\<not> full p \<longrightarrow>
      release lg c (Some s) True p
        = (Inr (), p\<lparr>available_servers := available_servers p @ [s]\<rparr>))
   \<and> (full p \<longleftrightarrow> cleanup_calls (snd (release lg c (Some s) True p)) \<noteq> cleanup_calls p)"
  by (simp add: release_healthy_eq cleanup_and_forget_eq full_def)

theorem release_healthy_unchecked_witness:
  "release (\<lambda>x. None) (\<lambda>s. None) (Some 99) True
      \<lparr>pool_size = 2, available_servers = [10], all_servers = [10],
       factory_calls = 2, cleanup_calls = [11]\<rparr>
     = (Inr (), \<lparr>pool_size = 2, available_servers = [10, 99], all_servers = [10],
                 factory_calls = 2, cleanup_calls = [11]\<rparr>)
   \<and> release (\<lambda>x. None) (\<lambda>s. None) (Some 10) True
      \<lparr>pool_size = 2, available_servers = [10], all_servers = [10],
       factory_calls = 2, cleanup_calls = [11]\<rparr>
     = (Inr (), \<lparr>pool_size = 2, available_servers = [10, 10], all_servers = [10],
                 factory_calls = 2, cleanup_calls = [11]\<rparr>)"
  using release_healthy_unchecked [where p = "\<lparr>pool_size = 2, available_servers = [10],
       all_servers = [10], factory_calls = 2, cleanup_calls = [11]\<rparr>"
       and lg = "\<lambda>x. None" and c = "\<lambda>s. None" and s = 99]
    release_healthy_unchecked [where p = "\<lparr>pool_size = 2, available_servers = [10],
       all_servers = [10], factory_calls = 2, cleanup_calls = [11]\<rparr>"
       and lg = "\<lambda>x. None" and c = "\<lambda>s. None" and s = 10]
  by simp

subsection \<open>Failed initialisation\<close>

text \<open>
  Claim C1 says that after a factory failure at the \<open>k\<close>-th call every server created
  in the attempt is disposed once and the queue and the tracked list end empty, and
  the docstring of \<open>initialize\<close> says the same.  That is what the code does when the
  \<open>logger.error\<close> calls of its handler return (\<open>initialize_failure_rollback\<close>,
  \<open>stdio_initialize_failure_rollback\<close>).  It is not what the code does here: capacity
  2, the factory returns server 10 and then raises an exception with the text \<open>{0}\<close>,
  and the logger raises \<open>IndexError\<close> on the message that contains this text, as
  \<open>str.format\<close> does.  \<open>initialize\<close> raises \<open>IndexError\<close> from the first statement of
  its handler; server 10 stays in the queue and no \<open>cleanup()\<close> is called.  In
  \<open>MCPServerStdioPool\<close> server 10 stays in \<open>all_servers\<close> as well.
\<close>

theorem initialize_failure_without_rollback:
  "initialize (\<lambda>x. if x = InitializeFailed (Failure ''{0}'') then Some IndexError else None)
     (\<lambda>i. if i = 0 then Inr 10 else Inl (Failure ''{0}'')) (\<lambda>s. None)
     \<lparr>pool_size = 2, available_servers = [], all_servers = [],
      factory_calls = 0, cleanup_calls = []\<rparr>
   = (Inl IndexError,
      \<lparr>pool_size = 2, available_servers = [10], all_servers = [],
       factory_calls = 2, cleanup_calls = []\<rparr>)
   \<and> stdio_initialize
     (\<lambda>x. if x = StdioCreateFailed (Failure ''{0}'') then Some IndexError else None)
     (\<lambda>i. if i = 0 then Inr 10 else Inl (Failure ''{0}'')) (\<lambda>s. None)
     \<lparr>pool_size = 2, available_servers = [], all_servers = [],
      factory_calls = 0, cleanup_calls = []\<rparr>
   = (Inl IndexError,
      \<lparr>pool_size = 2, available_servers = [10], all_servers = [10],
       factory_calls = 2, cleanup_calls = []\<rparr>)"
  by code_simp

subsection \<open>The exception of a failed initialisation\<close>

text \<open>
  Claim C6, as stated: the exception that leaves \<open>initialize()\<close> after a factory failure
  is the factory's exception wrapped as a \<open>PoolInitializationError\<close>.  It is not: with
  capacity 1, a factory that raises \<open>Failure ''boom''\<close> and a logger that returns,
  \<open>initialize()\<close> raises \<open>Failure ''boom''\<close> itself.
\<close>

theorem initialize_wrapped_counterexample:
  "fst (initialize (\<lambda>x. None) (\<lambda>i. Inl (Failure ''boom'')) (\<lambda>s. None)
         \<lparr>pool_size = 1, available_servers = [], all_servers = [],
          factory_calls = 0, cleanup_calls = []\<rparr>)
     = Inl (Failure ''boom'')
   \<and> fst (initialize (\<lambda>x. None) (\<lambda>i. Inl (Failure ''boom'')) (\<lambda>s. None)
         \<lparr>pool_size = 1, available_servers = [], all_servers = [],
          factory_calls = 0, cleanup_calls = []\<rparr>)
     \<noteq> Inl (PoolInitializationError (Failure ''boom''))"
  by (simp add: initialize_def drain_queue_eq)

text \<open>
  Claim C6, amended.  When the factory fails with \<open>e\<close> at the \<open>k\<close>-th of the \<open>n\<close>
  calls of \<open>initialize()\<close> on the constructed pool and the \<open>logger.error\<close> calls of the
  handler return, the exception that leaves \<open>initialize()\<close> is \<open>e\<close> itself, re-raised
  unchanged by the bare \<open>raise\<close>.
\<close>

theorem initialize_reraises:
  assumes "0 < n" and "1 \<le> k" and "k \<le> nat n"
      and "\<forall>i<k - 1. f i = Inr (g i)"
      and "f (k - 1) = Inl e"
      and "lg (InitializeFailed e) = None"
      and "\<forall>i<k - 1. \<forall>x. c (g i) = Some x \<longrightarrow> lg (PartialCleanupFailed (g i) x) = None"
    shows "\<exists>p0. new_pool n = Inr p0 \<and> fst (initialize lg f c p0) = Inl e"
proof -
  have "new_pool n = Inr \<lparr>pool_size = n, available_servers = [], all_servers = [],
                          factory_calls = 0, cleanup_calls = []\<rparr>"
    using assms(1) by (simp add: new_pool_def)
  moreover have "fst (initialize lg f c
             \<lparr>pool_size = n, available_servers = [], all_servers = [],
              factory_calls = 0, cleanup_calls = []\<rparr>) = Inl e"
    by (simp add: initialize_failure_rollback [OF assms])
  ultimately show ?thesis by blast
qed

theorem initialize_reraises_witness:
  "\<exists>p0. new_pool 2 = Inr p0
     \<and> fst (initialize (\<lambda>x. None)
              (\<lambda>i. if i < 1 then Inr 7 else Inl (Failure ''refused''))
              (\<lambda>s. Some (Failure ''stuck'')) p0)
         = Inl (Failure ''refused'')"
  using initialize_reraises [where n = 2 and k = 2
      and f = "\<lambda>i. if i < 1 then Inr 7 else Inl (Failure ''refused'')"
      and g = "\<lambda>i. 7" and e = "Failure ''refused''" and lg = "\<lambda>x. None"
      and c = "\<lambda>s. Some (Failure ''stuck'')"]
  by simp

subsection \<open>Shutdown\<close>

text \<open>
  Claim C4 says that \<open>shutdown()\<close> disposes every tracked server once and that a
  disposal failure on one server does not prevent the others from being disposed; the
  comment in the handler of the clean-up loop says the same.  That is what the code
  does when the \<open>logger.error\<close> call of the handler returns
  (\<open>shutdown_disposes_when_logged\<close>).  It is not what the code does here: the pool of
  capacity 2 after \<open>initialize()\<close>, with servers 10 and 11, where \<open>cleanup()\<close> of
  server 10 raises an exception with the text \<open>{0}\<close> and the logger raises \<open>IndexError\<close>
  on the message that contains this text, as \<open>str.format\<close> does.  \<open>shutdown()\<close> raises
  \<open>IndexError\<close> from the handler; \<open>cleanup()\<close> of server 11 is never called.  In
  \<open>MCPServerStdioPool\<close> both servers stay in \<open>all_servers\<close> as well.
\<close>

theorem shutdown_stops_at_failed_cleanup:
  "shutdown (\<lambda>x. if x = ShutdownCleanupFailed (Failure ''{0}'') then Some IndexError else None)
     (\<lambda>s. if s = 10 then Some (Failure ''{0}'') else None)
     \<lparr>pool_size = 2, available_servers = [10, 11], all_servers = [10, 11],
      factory_calls = 2, cleanup_calls = []\<rparr>
   = (Inl IndexError,
      \<lparr>pool_size = 2, available_servers = [], all_servers = [],
       factory_calls = 2, cleanup_calls = [10]\<rparr>)
   \<and> stdio_shutdown
     (\<lambda>x. if x = StdioShutdownCleanupFailed 10 (Failure ''{0}'') then Some IndexError else None)
     (\<lambda>s. if s = 10 then Some (Failure ''{0}'') else None)
     \<lparr>pool_size = 2, available_servers = [10, 11], all_servers = [10, 11],
      factory_calls = 2, cleanup_calls = []\<rparr>
   = (Inl IndexError,
      \<lparr>pool_size = 2, available_servers = [], all_servers = [10, 11],
       factory_calls = 2, cleanup_calls = [10]\<rparr>)"
  by code_simp

subsection \<open>Exceptions of release\<close>

text \<open>
  Claim C8 says that \<open>release\<close> never raises, and \<open>release\<close> wraps each \<open>cleanup()\<close> in
  \<open>try\<close> and \<open>except Exception\<close> to that end.  It returns normally when the
  \<open>logger.error\<close> call of the handler returns (\<open>release_returns_when_logged\<close>).  It
  raises here: server 10 is lent out of the pool of capacity 2, its \<open>cleanup()\<close> raises
  an exception with the text \<open>{0}\<close>, and the logger raises \<open>IndexError\<close> on the message
  that contains this text, as \<open>str.format\<close> does.  \<open>release(10, False)\<close> raises
  \<open>IndexError\<close> (after the \<open>finally\<close> clause has deleted server 10 from \<open>all_servers\<close>);
  so does \<open>release(10, True)\<close> into the full queue.
\<close>

theorem release_raises:
  "release (\<lambda>x. if x = UnhealthyCleanupFailed (Failure ''{0}'') then Some IndexError else None)
     (\<lambda>s. if s = 10 then Some (Failure ''{0}'') else None) (Some 10) False
     \<lparr>pool_size = 2, available_servers = [11], all_servers = [10, 11],
      factory_calls = 2, cleanup_calls = []\<rparr>
   = (Inl IndexError,
      \<lparr>pool_size = 2, available_servers = [11], all_servers = [11],
       factory_calls = 2, cleanup_calls = [10]\<rparr>)
   \<and> release (\<lambda>x. if x = FullQueueCleanupFailed (Failure ''{0}'') then Some IndexError else None)
     (\<lambda>s. if s = 10 then Some (Failure ''{0}'') else None) (Some 10) True
     \<lparr>pool_size = 2, available_servers = [10, 11], all_servers = [10, 11],
      factory_calls = 2, cleanup_calls = []\<rparr>
   = (Inl IndexError,
      \<lparr>pool_size = 2, available_servers = [10, 11], all_servers = [11],
       factory_calls = 2, cleanup_calls = [10]\<rparr>)"
  by code_simp

subsection \<open>Calls after shutdown\<close>

text \<open>
  Claim C3, as stated: after \<open>shutdown()\<close>, every \<open>acquire()\<close>, \<open>release()\<close> and
  \<open>initialize()\<close> fails with a state error.  The pool has no state field.  On the pool
  of capacity 1 that was initialised and shut down, \<open>acquire()\<close> waits on the empty
  queue, \<open>release(10, True)\<close> returns normally and \<open>initialize()\<close> returns normally.
\<close>

theorem after_shutdown_counterexample:
  "fst (acquire (run (\<lambda>x. None) (\<lambda>s. None) [Initialize (\<lambda>i. Inr (10 + i)), Shutdown]
         \<lparr>pool_size = 1, available_servers = [], all_servers = [],
          factory_calls = 0, cleanup_calls = []\<rparr>)) = Suspended
   \<and> fst (release (\<lambda>x. None) (\<lambda>s. None) (Some 10) True
        (run (\<lambda>x. None) (\<lambda>s. None) [Initialize (\<lambda>i. Inr (10 + i)), Shutdown]
         \<lparr>pool_size = 1, available_servers = [], all_servers = [],
          factory_calls = 0, cleanup_calls = []\<rparr>)) = Inr ()
   \<and> fst (initialize (\<lambda>x. None) (\<lambda>i. Inr (10 + i)) (\<lambda>s. None)
        (run (\<lambda>x. None) (\<lambda>s. None) [Initialize (\<lambda>i. Inr (10 + i)), Shutdown]
         \<lparr>pool_size = 1, available_servers = [], all_servers = [],
          factory_calls = 0, cleanup_calls = []\<rparr>)) = Inr ()"
  by code_simp

text \<open>
  Claim C3, amended.  After \<open>shutdown()\<close>, whether it returned or raised, the pool is
  empty and keeps no record of having been shut down: \<open>acquire()\<close> waits on the empty
  queue and does not raise; \<open>release(None)\<close> is a no-op; \<open>release(s, True)\<close> returns
  normally and enqueues \<open>s\<close>; \<open>release(s, False)\<close> calls \<open>s.cleanup()\<close> and returns
  normally when the \<open>cleanup()\<close> returns or the \<open>logger.error\<close> call that reports its
  failure returns; and \<open>initialize()\<close> with a factory that succeeds returns normally
  and fills the queue and \<open>all_servers\<close> with \<open>pool_size\<close> new servers.
\<close>

theorem after_shutdown:
  "acquire (snd (shutdown lg c p)) = (Suspended, snd (shutdown lg c p))
   \<and> release lg c None is_healthy (snd (shutdown lg c p)) = (Inr (), snd (shutdown lg c p))
   \<and> release lg c (Some s) True (snd (shutdown lg c p))
       = (Inr (), (snd (shutdown lg c p))\<lparr>available_servers := [s]\<rparr>)
   \<and> ((\<forall>e. c s = Some e \<longrightarrow> lg (UnhealthyCleanupFailed e) = None) \<longrightarrow>
        release lg c (Some s) False (snd (shutdown lg c p))
          = (Inr (), (snd (shutdown lg c p))
               \<lparr>cleanup_calls := cleanup_calls (snd (shutdown lg c p)) @ [s]\<rparr>))
   \<and> ((\<forall>i<nat (pool_size p). f (factory_calls p + i) = Inr (g (factory_calls p + i))) \<longrightarrow>
        initialize lg f c (snd (shutdown lg c p))
          = (Inr (), (snd (shutdown lg c p))
               \<lparr>factory_calls := factory_calls p + nat (pool_size p),
                available_servers := map g [factory_calls p ..< factory_calls p + nat (pool_size p)],
                all_servers := map g [factory_calls p ..< factory_calls p + nat (pool_size p)]\<rparr>))"
proof -
  obtain new where sh: "snd (shutdown lg c p) = p\<lparr>all_servers := [], available_servers := [],
                             cleanup_calls := cleanup_calls p @ new\<rparr>"
    using shutdown_state by blast
  let ?q = "snd (shutdown lg c p)"
  have av: "available_servers ?q = []" and al: "all_servers ?q = []"
    and ps: "pool_size ?q = pool_size p" and fc: "factory_calls ?q = factory_calls p"
    by (simp_all add: sh)
  have nf: "\<not> full ?q" by (simp add: full_def av)
  have 1: "acquire ?q = (Suspended, ?q)" by (simp add: acquire_def av)
  have 2: "release lg c None is_healthy ?q = (Inr (), ?q)" by (simp add: release_def)
  have 3: "release lg c (Some s) True ?q = (Inr (), ?q\<lparr>available_servers := [s]\<rparr>)"
    by (simp add: release_healthy_eq nf av)
  have 4: "release lg c (Some s) False ?q
             = (Inr (), ?q\<lparr>cleanup_calls := cleanup_calls ?q @ [s]\<rparr>)"
    if "\<forall>e. c s = Some e \<longrightarrow> lg (UnhealthyCleanupFailed e) = None"
    using that by (cases "c s") (simp_all add: release_unhealthy_eq cleanup_and_forget_eq al)
  have 5: "initialize lg f c ?q
          = (Inr (), ?q
               \<lparr>factory_calls := factory_calls p + nat (pool_size p),
                available_servers := map g [factory_calls p ..< factory_calls p + nat (pool_size p)],
                all_servers := map g [factory_calls p ..< factory_calls p + nat (pool_size p)]\<rparr>)"
    if h: "\<forall>i<nat (pool_size p). f (factory_calls p + i) = Inr (g (factory_calls p + i))"
  proof (cases "0 \<le> pool_size p")
    case True
    have a: "\<forall>i<nat (pool_size ?q). f (factory_calls ?q + i) = Inr (g (factory_calls ?q + i))"
      using h by (simp add: ps fc)
    have b: "int (length (available_servers ?q)) + int (nat (pool_size ?q)) \<le> pool_size ?q"
      using True by (simp add: av ps)
    show ?thesis
      using create_servers_succeed [OF a b, of "[]"]
      by (simp add: initialize_def av al ps fc)
  next
    case False
    then have z: "nat (pool_size p) = 0" by simp
    show ?thesis
      by (simp add: initialize_def ps z) (simp add: sh)
  qed
  from 1 2 3 4 5 show ?thesis by blast
qed

theorem after_shutdown_witness:
  "release (\<lambda>x. None) (\<lambda>s. Some (Failure ''gone'')) (Some 10) False
      (snd (shutdown (\<lambda>x. None) (\<lambda>s. Some (Failure ''gone''))
         \<lparr>pool_size = 1, available_servers = [10], all_servers = [10],
          factory_calls = 1, cleanup_calls = []\<rparr>))
     = (Inr (), \<lparr>pool_size = 1, available_servers = [], all_servers = [],
                 factory_calls = 1, cleanup_calls = [10, 10]\<rparr>)
   \<and> initialize (\<lambda>x. None) (\<lambda>i. Inr (10 + i)) (\<lambda>s. Some (Failure ''gone''))
      (snd (shutdown (\<lambda>x. None) (\<lambda>s. Some (Failure ''gone''))
         \<lparr>pool_size = 1, available_servers = [10], all_servers = [10],
          factory_calls = 1, cleanup_calls = []\<rparr>))
     = (Inr (), \<lparr>pool_size = 1, available_servers = [11], all_servers = [11],
                 factory_calls = 2, cleanup_calls = [10]\<rparr>)"
proof -
  let ?lg = "\<lambda>x::log_call. None :: exn option"
  let ?c = "\<lambda>s::server. Some (Failure ''gone'')"
  let ?p = "\<lparr>pool_size = 1, available_servers = [10], all_servers = [10],
          factory_calls = 1, cleanup_calls = []\<rparr>"
  have q: "snd (shutdown ?lg ?c ?p)
            = \<lparr>pool_size = 1, available_servers = [], all_servers = [],
               factory_calls = 1, cleanup_calls = [10]\<rparr>"
    by code_simp
  have h1: "\<forall>e. ?c 10 = Some e \<longrightarrow> ?lg (UnhealthyCleanupFailed e) = None" by simp
  have h2: "\<forall>i<nat (pool_size ?p). Inr (10 + (factory_calls ?p + i))
            = (Inr (10 + (factory_calls ?p + i)) :: exn + server)" by simp
  note th = after_shutdown [where lg = ?lg and c = ?c and p = ?p and s = 10
      and f = "\<lambda>i. Inr (10 + i)" and g = "\<lambda>i. 10 + i" and is_healthy = True]
  from th h1 have a: "release ?lg ?c (Some 10) False (snd (shutdown ?lg ?c ?p))
          = (Inr (), (snd (shutdown ?lg ?c ?p))
               \<lparr>cleanup_calls := cleanup_calls (snd (shutdown ?lg ?c ?p)) @ [10]\<rparr>)"
    by blast
  from th h2 have b: "initialize ?lg (\<lambda>i. Inr (10 + i)) ?c (snd (shutdown ?lg ?c ?p))
          = (Inr (), (snd (shutdown ?lg ?c ?p))
               \<lparr>factory_calls := factory_calls ?p + nat (pool_size ?p),
                available_servers := map (\<lambda>i. 10 + i)
                   [factory_calls ?p ..< factory_calls ?p + nat (pool_size ?p)],
                all_servers := map (\<lambda>i. 10 + i)
                   [factory_calls ?p ..< factory_calls ?p + nat (pool_size ?p)]\<rparr>)"
    by blast
  from a b show ?thesis unfolding q by simp
qed

subsection \<open>Unhealthy release\<close>

text \<open>
  Claim C7.  Take the constructed pool, an \<open>initialize()\<close> that returned normally and
  any consumer traffic in which every release is of a server that is lent out.  For
  every server \<open>s\<close> that \<open>acquire()\<close> then returns, \<open>release(s, False)\<close> calls
  \<open>s.cleanup()\<close> once and nothing else; it deletes \<open>s\<close> from \<open>all_servers\<close>, which becomes
  one shorter and gains no element; it leaves the queue as \<open>acquire()\<close> left it, so \<open>s\<close>
  is not enqueued, and \<open>s\<close> is neither tracked nor available afterwards when the pool
  held it once; and it does not call the factory.  This holds whether \<open>release\<close>
  returns or raises; it returns when the \<open>cleanup()\<close> returns or the \<open>logger.error\<close>
  call that reports its failure returns.
\<close>

theorem release_unhealthy:
  assumes "new_pool n = Inr p0"
      and "initialize lg f c p0 = (Inr (), p1)"
      and "consumer_run lg c ops (p1, []) = Some (p, lent)"
      and "acquire p = (Returned s, p')"
    shows "\<exists>r p2. release lg c (Some s) False p' = (r, p2)
             \<and> ((\<forall>e. c s = Some e \<longrightarrow> lg (UnhealthyCleanupFailed e) = None) \<longrightarrow> r = Inr ())
             \<and> cleanup_calls p2 = cleanup_calls p @ [s]
             \<and> all_servers p2 = remove1 s (all_servers p)
             \<and> length (all_servers p2) + 1 = length (all_servers p)
             \<and> set (all_servers p2) \<subseteq> set (all_servers p)
             \<and> available_servers p2 = available_servers p'
             \<and> available_servers p = s # available_servers p2
             \<and> factory_calls p2 = factory_calls p
             \<and> pool_size p2 = pool_size p
             \<and> (distinct (all_servers p) \<longrightarrow> s \<notin> set (all_servers p2))
             \<and> (distinct (available_servers p) \<longrightarrow> s \<notin> set (available_servers p2))"
proof -
  from initialize_new_pool [OF assms(1,2)]
  have j: "mset (available_servers p1) + mset [] = mset (all_servers p1)"
    "int (length (all_servers p1)) \<le> pool_size p1"
    by simp_all
  from consumer_run_inv [OF assms(3) j]
  have k: "mset (available_servers p) + mset lent = mset (all_servers p)" by simp
  from assms(4) have "s \<in> set (available_servers p)"
    by (auto simp: acquire_def split: list.splits)
  with k have "s \<in> set (all_servers p)"
    by (metis in_multiset_in_set union_iff)
  from release_unhealthy_tracked [OF assms(4) this] show ?thesis .
qed

theorem release_unhealthy_witness:
  "\<exists>p0 p1 p' r p2. new_pool 2 = Inr p0
     \<and> initialize (\<lambda>x. if x = UnhealthyCleanupFailed (Failure ''{0}'') then Some IndexError else None)
          (\<lambda>i. Inr (10 + i)) (\<lambda>s. Some (Failure ''{0}'')) p0 = (Inr (), p1)
     \<and> acquire p1 = (Returned 10, p')
     \<and> release (\<lambda>x. if x = UnhealthyCleanupFailed (Failure ''{0}'') then Some IndexError else None)
          (\<lambda>s. Some (Failure ''{0}'')) (Some 10) False p' = (r, p2)
     \<and> r = Inl IndexError
     \<and> cleanup_calls p2 = [10]
     \<and> all_servers p1 = [10, 11] \<and> all_servers p2 = [11]
     \<and> available_servers p2 = [11]
     \<and> factory_calls p2 = 2"
proof -
  let ?lg = "\<lambda>x. if x = UnhealthyCleanupFailed (Failure ''{0}'') then Some IndexError else None"
  let ?c = "\<lambda>s::server. Some (Failure ''{0}'')"
  let ?f = "\<lambda>i::nat. Inr (10 + i) :: exn + server"
  let ?start = "\<lparr>pool_size = 2, available_servers = [], all_servers = [],
              factory_calls = 0, cleanup_calls = []\<rparr>"
  let ?p1 = "\<lparr>pool_size = 2, available_servers = [10, 11], all_servers = [10, 11],
              factory_calls = 2, cleanup_calls = []\<rparr>"
  let ?p' = "\<lparr>pool_size = 2, available_servers = [11], all_servers = [10, 11],
              factory_calls = 2, cleanup_calls = []\<rparr>"
  have a: "new_pool 2 = Inr ?start" by (simp add: new_pool_def)
  have b: "initialize ?lg ?f ?c ?start = (Inr (), ?p1)" by code_simp
  have d: "consumer_run ?lg ?c [] (?p1, []) = Some (?p1, [])" by simp
  have e: "acquire ?p1 = (Returned 10, ?p')" by (simp add: acquire_def)
  have v: "fst (release ?lg ?c (Some 10) False ?p') = Inl IndexError" by code_simp
  from release_unhealthy [OF a b d e] obtain r p2 where
    h: "release ?lg ?c (Some 10) False ?p' = (r, p2)"
       "cleanup_calls p2 = cleanup_calls ?p1 @ [10]"
       "all_servers p2 = remove1 10 (all_servers ?p1)"
       "available_servers p2 = available_servers ?p'"
       "factory_calls p2 = factory_calls ?p1"
    by blast
  from h(1) v have r: "r = Inl IndexError" by simp
  from h(2-5) have f: "cleanup_calls p2 = [10]" "all_servers p2 = [11]"
    "available_servers p2 = [11]" "factory_calls p2 = 2"
    by simp_all
  have g: "all_servers ?p1 = [10, 11]" by simp
  from a b e h(1) r f g show ?thesis by blast
qed

subsection \<open>Bounds on the queue and on the tracked servers\<close>




end
